theory Spec2Isabelle
  imports Complex_Main "HOL-Library.Sublist" "HOL-Library.Multiset"
begin

section \<open>Rate limiting (batch\_script\_async.py, lines 22--49)\<close>

text \<open>
  Timestamps are Python floats; they are modelled as reals, so rounding in
  \<^verbatim>\<open>now - rate_ts[0]\<close> is idealised. The global \<^verbatim>\<open>rate_ts\<close> is a
  \<^verbatim>\<open>deque(maxlen=RATE_LIMIT_MAX)\<close>; it is a list whose head is \<^verbatim>\<open>rate_ts[0]\<close>,
  passed in and returned. \<^verbatim>\<open>time.time()\<close> is the argument \<open>clock\<close>.
\<close>

definition RATE_LIMIT_MAX :: nat where
  "RATE_LIMIT_MAX = 100"


text \<open>\<^verbatim>\<open>deque.append\<close> on a bounded deque: the new item goes to the right end and,
  when the deque was full, the leftmost item is discarded.\<close>

definition deque_append :: "nat \<Rightarrow> 'a list \<Rightarrow> 'a \<Rightarrow> 'a list" where
  "deque_append maxlen dq x =
     (let ys = dq @ [x] in if length ys > maxlen then tl ys else ys)"



text \<open>\<^verbatim>\<open>now or time.time()\<close>: Python's \<^verbatim>\<open>or\<close> yields its left operand only when that
  is truthy; \<^verbatim>\<open>None\<close> and \<^verbatim>\<open>0.0\<close> are falsy.\<close>

definition now_or_time :: "real option \<Rightarrow> real \<Rightarrow> real" where
  "now_or_time now clock =
     (case now of None \<Rightarrow> clock | Some t \<Rightarrow> if t = 0 then clock else t)"

definition record_call :: "real option \<Rightarrow> real \<Rightarrow> real list \<Rightarrow> real list" where
  "record_call now clock rate_ts = deque_append RATE_LIMIT_MAX rate_ts (now_or_time now clock)"



section \<open>Python values and library calls\<close>

text \<open>
  A response body is whatever \<^verbatim>\<open>resp.json()\<close> yields, or a dictionary the client
  builds itself. A dictionary is an association list with string keys; a key's value
  is its first binding. A float is a real number.
\<close>

datatype pyval =
    PNone
  | PBool bool
  | PInt int
  | PFloat real
  | PStr string
  | PList "pyval list"
  | PDict "(string \<times> pyval) list"

datatype py_error = AttributeError | KeyError | ValueError

text \<open>
  The two library functions whose text output the program stores but never inspects:
  \<^verbatim>\<open>json.dumps(v, ensure_ascii=False)\<close> (\<open>None\<close> when it raises) and \<^verbatim>\<open>str(v)\<close>.
  Every definition below takes them as the argument \<open>L\<close>, so every theorem holds
  for any behaviour of the two.
\<close>

record pylib =
  json_dumps :: "pyval \<Rightarrow> string option"
  py_str :: "pyval \<Rightarrow> string"

text \<open>\<^verbatim>\<open>obj.get(key, default)\<close>: only a dictionary has the method.\<close>

definition py_get :: "pyval \<Rightarrow> string \<Rightarrow> pyval \<Rightarrow> py_error + pyval" where
  "py_get obj key dflt =
     (case obj of
        PDict kvs \<Rightarrow> Inr (case map_of kvs key of None \<Rightarrow> dflt | Some v \<Rightarrow> v)
      | _ \<Rightarrow> Inl AttributeError)"

definition isinstance_dict :: "pyval \<Rightarrow> bool" where
  "isinstance_dict v = (case v of PDict _ \<Rightarrow> True | _ \<Rightarrow> False)"

text \<open>\<^verbatim>\<open>str.strip()\<close>: the whitespace characters of the ASCII range.\<close>

definition isspace :: "char \<Rightarrow> bool" where
  "isspace c = (c \<in> set [CHR 0x09, CHR 0x0A, CHR 0x0B, CHR 0x0C, CHR 0x0D,
                           CHR 0x1C, CHR 0x1D, CHR 0x1E, CHR 0x1F, CHR 0x20])"

definition strip :: "string \<Rightarrow> string" where
  "strip s = rev (dropWhile isspace (rev (dropWhile isspace s)))"

text \<open>One cell of \<^verbatim>\<open>Series.astype(str)\<close>: a string stays as it is, any other value
  goes through \<^verbatim>\<open>str\<close>.\<close>

definition astype_str :: "pylib \<Rightarrow> pyval \<Rightarrow> string" where
  "astype_str L v = (case v of PStr s \<Rightarrow> s | _ \<Rightarrow> py_str L v)"

text \<open>A list comprehension whose element expression may raise: the first exception
  ends it.\<close>

fun collect :: "('e + 'a) list \<Rightarrow> 'e + 'a list" where
  "collect [] = Inr []"
| "collect (x # xs) =
     (case x of
        Inl e \<Rightarrow> Inl e
      | Inr v \<Rightarrow> (case collect xs of Inl e \<Rightarrow> Inl e | Inr vs \<Rightarrow> Inr (v # vs)))"

section \<open>Tables\<close>

text \<open>
  A \<^verbatim>\<open>DataFrame\<close> is its columns in order, each a label with the column's cells from
  the first row to the last. \<^verbatim>\<open>pd.read_excel\<close> gives every column its own label, and
  all columns the same number of cells. A cell is the Python value stored in it; the
  numeric type pandas picks for a column is not part of the model.
\<close>

type_synonym dataframe = "(string \<times> pyval list) list"


text \<open>\<^verbatim>\<open>df[label]\<close>.\<close>

definition getitem :: "dataframe \<Rightarrow> string \<Rightarrow> py_error + pyval list" where
  "getitem df label = (case map_of df label of None \<Rightarrow> Inl KeyError | Some cells \<Rightarrow> Inr cells)"

text \<open>\<^verbatim>\<open>df[label] = cells\<close>: an existing column is replaced where it stands, a new one
  is added as the last column.\<close>

definition setitem :: "dataframe \<Rightarrow> string \<Rightarrow> pyval list \<Rightarrow> dataframe" where
  "setitem df label cells =
     (if label \<in> set (map fst df)
      then map (\<lambda>(k, old). if k = label then (k, cells) else (k, old)) df
      else df @ [(label, cells)])"

text \<open>
  \<^verbatim>\<open>df[[a, b, c]] = rows\<close> for a list of triples: pandas sets the three columns one
  after the other, each from its component of the triples. An empty list has no
  second axis of length three, and pandas refuses it (\<^verbatim>\<open>ValueError: Columns must be
  same length as key\<close>).
\<close>

definition setitem3 ::
  "dataframe \<Rightarrow> string \<times> string \<times> string \<Rightarrow> (pyval \<times> pyval \<times> pyval) list \<Rightarrow> py_error + dataframe" where
  "setitem3 df labels rows =
     (case labels of (a, b, c) \<Rightarrow>
        if rows = [] then Inl ValueError
        else Inr (setitem (setitem (setitem df a (map fst rows))
                                   b (map (fst \<circ> snd) rows))
                          c (map (snd \<circ> snd) rows)))"


section \<open>Projecting results onto the table (batch\_script\_async.py, lines 103--135)\<close>

type_synonym lookup_result = "string \<times> int \<times> pyval"

text \<open>The loop that fills \<^verbatim>\<open>out_map\<close>: a key already present keeps its value.\<close>

fun fill_out_map ::
  "lookup_result list \<Rightarrow> (string \<rightharpoonup> int \<times> pyval) \<Rightarrow> (string \<rightharpoonup> int \<times> pyval)" where
  "fill_out_map [] out_map = out_map"
| "fill_out_map ((uen, status, body) # results) out_map =
     fill_out_map results
       (case out_map uen of None \<Rightarrow> out_map(uen \<mapsto> (status, body)) | Some _ \<Rightarrow> out_map)"

definition return_code_of :: "pyval \<Rightarrow> py_error + pyval" where
  "return_code_of body =
     (if isinstance_dict body then py_get body ''returnCode'' (PStr '''') else Inr (PStr ''''))"

definition reg_id_of :: "pyval \<Rightarrow> py_error + pyval" where
  "reg_id_of body =
     (if isinstance_dict body
      then (case py_get body ''data'' (PDict []) of
              Inl e \<Rightarrow> Inl e
            | Inr d \<Rightarrow> py_get d ''registrationId'' (PStr ''''))
      else Inr (PStr ''''))"

definition json_str_of :: "pylib \<Rightarrow> pyval \<Rightarrow> string" where
  "json_str_of L body = (case json_dumps L body of Some s \<Rightarrow> s | None \<Rightarrow> py_str L body)"

text \<open>The three values derived from one body, in the order the source computes them.\<close>

definition derive :: "pylib \<Rightarrow> pyval \<Rightarrow> py_error + (pyval \<times> pyval \<times> pyval)" where
  "derive L body =
     (case return_code_of body of
        Inl e \<Rightarrow> Inl e
      | Inr return_code \<Rightarrow>
          (case reg_id_of body of
             Inl e \<Rightarrow> Inl e
           | Inr reg_id \<Rightarrow> Inr (return_code, reg_id, PStr (json_str_of L body))))"

definition extract_row ::
  "pylib \<Rightarrow> (string \<rightharpoonup> int \<times> pyval) \<Rightarrow> string \<Rightarrow> py_error + (pyval \<times> pyval \<times> pyval)" where
  "extract_row L out_map uen =
     (case out_map uen of
        None \<Rightarrow> Inr (PStr '''', PStr '''', PStr '''')
      | Some (status, body) \<Rightarrow> derive L body)"

text \<open>One element of \<^verbatim>\<open>df_in[col_a_name].astype(str).str.strip()\<close>.\<close>

definition row_key :: "pylib \<Rightarrow> pyval \<Rightarrow> string" where
  "row_key L c = strip (astype_str L c)"

definition response_columns :: "string \<times> string \<times> string" where
  "response_columns = (''response-status'', ''response-registrationId'', ''json-response'')"

definition process_batch_results ::
  "pylib \<Rightarrow> dataframe \<Rightarrow> string \<Rightarrow> lookup_result list \<Rightarrow> py_error + dataframe" where
  "process_batch_results L df_in col_a_name results =
     (let out_map = fill_out_map results Map.empty in
      case getitem df_in col_a_name of
        Inl e \<Rightarrow> Inl e
      | Inr cells \<Rightarrow>
          (case collect (map (\<lambda>c. extract_row L out_map (row_key L c)) cells) of
             Inl e \<Rightarrow> Inl e
           | Inr results_data \<Rightarrow> setitem3 df_in response_columns results_data))"


section \<open>The lookup client (batch\_script\_async.py, lines 55--97)\<close>

text \<open>
  An exception is its class name and its message, \<^verbatim>\<open>str(e)\<close>. The type stands for the
  instances of \<^verbatim>\<open>Exception\<close>, which is what the two \<^verbatim>\<open>except\<close> clauses catch; an
  interruption of the process (\<^verbatim>\<open>KeyboardInterrupt\<close>, a cancelled task) is outside
  the model.
\<close>

record py_exception =
  class_name :: string
  message :: string

datatype 'a attempt = Ok 'a | Raised py_exception

record iras_client =
  base_url :: string
  client_id :: string
  client_secret :: string

record request =
  url :: string
  payload :: "(string \<times> string) list"
  headers :: "(string \<times> string) list"
  timeout_total :: nat

text \<open>What the program reads of a response: \<^verbatim>\<open>resp.status\<close>,
  \<^verbatim>\<open>resp.headers.get("content-type")\<close>, and what \<^verbatim>\<open>resp.json()\<close> and \<^verbatim>\<open>resp.text()\<close>
  would give, each of which may raise.\<close>

record response =
  resp_status :: int
  resp_content_type :: "string option"
  resp_json :: "pyval attempt"
  resp_text :: "string attempt"

definition client_headers :: "iras_client \<Rightarrow> (string \<times> string) list" where
  "client_headers self =
     [(''X-IBM-Client-Id'', client_id self),
      (''X-IBM-Client-Secret'', client_secret self),
      (''Content-Type'', ''application/json''),
      (''Accept'', ''application/json'')]"

text \<open>\<^verbatim>\<open>{"error": f"{e.__class__.__name__}: {e}"}\<close>.\<close>

definition error_body :: "py_exception \<Rightarrow> pyval" where
  "error_body e = PDict [(''error'', PStr (class_name e @ '': '' @ message e))]"

text \<open>The arguments of \<^verbatim>\<open>self.session.post\<close> for an identifier.\<close>

definition lookup_request :: "iras_client \<Rightarrow> string \<Rightarrow> request" where
  "lookup_request self reg_id =
     \<lparr> url = base_url self,
       payload = [(''clientID'', client_id self), (''regID'', reg_id)],
       headers = client_headers self,
       timeout_total = 30 \<rparr>"

text \<open>\<^verbatim>\<open>search_gst_registered\<close>; \<open>post\<close> is \<^verbatim>\<open>self.session.post\<close>, the exchange with the
  remote service. Both \<^verbatim>\<open>except\<close> clauses return the same pair.\<close>

definition search_gst_registered ::
  "iras_client \<Rightarrow> (request \<Rightarrow> response attempt) \<Rightarrow> string \<Rightarrow> int \<times> pyval" where
  "search_gst_registered self post reg_id =
     (case post (lookup_request self reg_id) of
        Raised e \<Rightarrow> (0, error_body e)
      | Ok resp \<Rightarrow>
          if prefix ''application/json''
               (case resp_content_type resp of None \<Rightarrow> '''' | Some ct \<Rightarrow> ct)
          then (case resp_json resp of
                  Raised e \<Rightarrow> (0, error_body e)
                | Ok body \<Rightarrow> (resp_status resp, body))
          else (case resp_text resp of
                  Raised e \<Rightarrow> (0, error_body e)
                | Ok raw \<Rightarrow> (resp_status resp, PDict [(''raw'', PStr raw)])))"

section \<open>The batch dispatcher (batch\_script\_async.py, lines 138--161)\<close>

text \<open>
  \<^verbatim>\<open>asyncio\<close> runs the coroutines \<^verbatim>\<open>_fetch(uen)\<close> on one thread and switches between
  them only where one awaits. A coroutine therefore takes two steps. In the first it
  passes \<^verbatim>\<open>async with sem\<close>, which needs a free permit, calls \<^verbatim>\<open>record_call()\<close> and
  sends its request; then it waits for the response. In the second the response has
  arrived: it counts itself in \<^verbatim>\<open>processed\<close>, reports progress, yields its result and
  leaves the \<^verbatim>\<open>async with\<close> block, which frees the permit.
\<close>

datatype task = Pending | InFlight | Finished "int \<times> pyval"

text \<open>
  The state of a run: the coroutines in the order of \<^verbatim>\<open>uens\<close>, the free permits of
  \<^verbatim>\<open>sem\<close>, \<^verbatim>\<open>processed\<close>, the global \<^verbatim>\<open>rate_ts\<close>, the identifiers passed to the client
  so far, the calls made to \<^verbatim>\<open>progress_callback\<close>, and the results in the order of
  completion (the list \<^verbatim>\<open>results\<close> that \<^verbatim>\<open>_one\<close> appends to in main.py).
\<close>

record batch_state =
  tasks :: "task list"
  sem_value :: nat
  processed :: nat
  rate_ts :: "real list"
  requested :: "string list"
  progress :: "(nat \<times> nat) list"
  completed :: "lookup_result list"

datatype event = Acquire nat | Complete nat

text \<open>
  What the program does not decide: which of the possible steps happens next, what
  \<^verbatim>\<open>time.time()\<close> reads at a step, and how the exchange of each coroutine ends.
\<close>

record environment =
  choice :: "nat \<Rightarrow> nat"
  time_time :: "nat \<Rightarrow> real"
  session_post :: "nat \<Rightarrow> request \<Rightarrow> response attempt"

text \<open>The steps that can happen in a state.\<close>

definition enabled :: "batch_state \<Rightarrow> event list" where
  "enabled s =
     map Acquire (filter (\<lambda>i. tasks s ! i = Pending \<and> 0 < sem_value s) [0..<length (tasks s)])
     @ map Complete (filter (\<lambda>i. tasks s ! i = InFlight) [0..<length (tasks s)])"

definition fire ::
  "environment \<Rightarrow> iras_client \<Rightarrow> string list \<Rightarrow> bool \<Rightarrow> nat \<Rightarrow> batch_state \<Rightarrow> event \<Rightarrow> batch_state" where
  "fire E client uens progress_callback n s ev =
     (case ev of
        Acquire i \<Rightarrow>
          s\<lparr> sem_value := sem_value s - 1,
             rate_ts := record_call None (time_time E n) (rate_ts s),
             requested := requested s @ [uens ! i],
             tasks := (tasks s)[i := InFlight] \<rparr>
      | Complete i \<Rightarrow>
          (case search_gst_registered client (session_post E i) (uens ! i) of
             (status, body) \<Rightarrow>
               s\<lparr> processed := processed s + 1,
                  progress := (if progress_callback
                               then progress s @ [(processed s + 1, length uens)]
                               else progress s),
                  completed := completed s @ [(uens ! i, status, body)],
                  tasks := (tasks s)[i := Finished (status, body)],
                  sem_value := sem_value s + 1 \<rparr>))"

text \<open>The steps a coroutine still has to take.\<close>

definition steps_left :: "task \<Rightarrow> nat" where
  "steps_left t = (case t of Pending \<Rightarrow> 2 | InFlight \<Rightarrow> 1 | Finished _ \<Rightarrow> 0)"

text \<open>A run from a state at step \<open>n\<close>: the states passed through, the last being one
  in which no step can happen.\<close>

function run ::
  "environment \<Rightarrow> iras_client \<Rightarrow> string list \<Rightarrow> bool \<Rightarrow> nat \<Rightarrow> batch_state \<Rightarrow> batch_state list" where
  "run E client uens progress_callback n s =
     (if enabled s = [] then [s]
      else s # run E client uens progress_callback (Suc n)
                 (fire E client uens progress_callback n s
                    (enabled s ! (choice E n mod length (enabled s)))))"
  by pat_completeness auto
termination
proof (relation "measure (\<lambda>(E, client, uens, progress_callback, n, s).
                            sum_list (map steps_left (tasks s)))")
  show "wf (measure (\<lambda>(E, client, uens, progress_callback, n, s).
                            sum_list (map steps_left (tasks s))))"
    by simp
next
  fix E :: environment and client :: iras_client and uens :: "string list"
    and progress_callback :: bool and n :: nat and s :: batch_state
  assume ne: "enabled s \<noteq> []"
  let ?ev = "enabled s ! (choice E n mod length (enabled s))"
  let ?ts = "tasks s"
  have dec: "sum_list (map steps_left (?ts[i := t])) < sum_list (map steps_left ?ts)"
    if i: "i < length ?ts" and lt: "steps_left t < steps_left (?ts ! i)" for i t
  proof -
    have "steps_left (?ts ! i) \<le> sum_list (map steps_left ?ts)"
      using i by (intro member_le_sum_list) simp_all
    moreover have "sum_list (map steps_left (?ts[i := t]))
        = sum_list (map steps_left ?ts) + steps_left t - steps_left (?ts ! i)"
      using i by (simp add: map_update sum_list_update)
    ultimately show ?thesis using lt by simp
  qed
  from ne have "?ev \<in> set (enabled s)" by simp
  then consider i where "?ev = Acquire i" "i < length ?ts" "?ts ! i = Pending"
    | i where "?ev = Complete i" "i < length ?ts" "?ts ! i = InFlight"
    by (auto simp: enabled_def)
  then have "sum_list (map steps_left (tasks (fire E client uens progress_callback n s ?ev)))
      < sum_list (map steps_left ?ts)"
  proof cases
    case 1
    then show ?thesis by (simp add: fire_def dec steps_left_def)
  next
    case 2
    then show ?thesis by (simp add: fire_def dec steps_left_def split: prod.splits)
  qed
  then show "((E, client, uens, progress_callback, Suc n,
               fire E client uens progress_callback n s ?ev),
              (E, client, uens, progress_callback, n, s))
        \<in> measure (\<lambda>(E, client, uens, progress_callback, n, s).
                            sum_list (map steps_left (tasks s)))"
    by simp
qed

text \<open>\<^verbatim>\<open>asyncio.gather\<close>: the results of the coroutines in the order they were given,
  once all have finished.\<close>

fun gather :: "string list \<Rightarrow> task list \<Rightarrow> lookup_result list option" where
  "gather (uen # uens) (Finished (status, body) # ts) =
     (case gather uens ts of None \<Rightarrow> None | Some rs \<Rightarrow> Some ((uen, status, body) # rs))"
| "gather [] [] = Some []"
| "gather _ _ = None"

text \<open>How a call of \<^verbatim>\<open>batch_lookup\<close> ends. \<^verbatim>\<open>asyncio.Semaphore\<close> raises \<^verbatim>\<open>ValueError\<close>
  for a negative value; a run that stops with a coroutine still waiting never
  returns.\<close>

datatype 'a outcome = Returns 'a | Raises py_error | NeverReturns

definition initial_state :: "string list \<Rightarrow> nat \<Rightarrow> real list \<Rightarrow> batch_state" where
  "initial_state uens concurrency rate_ts0 =
     \<lparr> tasks = map (\<lambda>uen. Pending) uens, sem_value = concurrency, processed = 0,
       rate_ts = rate_ts0, requested = [], progress = [], completed = [] \<rparr>"

definition batch_states ::
  "environment \<Rightarrow> iras_client \<Rightarrow> string list \<Rightarrow> int \<Rightarrow> bool \<Rightarrow> real list \<Rightarrow> batch_state list" where
  "batch_states E client uens concurrency progress_callback rate_ts0 =
     run E client uens progress_callback 0 (initial_state uens (nat concurrency) rate_ts0)"

definition batch_lookup ::
  "environment \<Rightarrow> iras_client \<Rightarrow> string list \<Rightarrow> int \<Rightarrow> bool \<Rightarrow> real list
     \<Rightarrow> lookup_result list outcome" where
  "batch_lookup E client uens concurrency progress_callback rate_ts0 =
     (if concurrency < 0 then Raises ValueError
      else case gather uens
                  (tasks (last (batch_states E client uens concurrency progress_callback rate_ts0))) of
             None \<Rightarrow> NeverReturns
           | Some results \<Rightarrow> Returns results)"

section \<open>Notions used to state the properties\<close>



text \<open>A body on which the two \<^verbatim>\<open>.get\<close> chains meet no value without the method:
  anything that is not a dictionary, or a dictionary whose \<^verbatim>\<open>data\<close> entry is absent
  or a dictionary itself.\<close>

definition well_shaped :: "pyval \<Rightarrow> bool" where
  "well_shaped body =
     (case body of
        PDict kvs \<Rightarrow> (case map_of kvs ''data'' of None \<Rightarrow> True | Some d \<Rightarrow> isinstance_dict d)
      | _ \<Rightarrow> True)"


text \<open>A string without whitespace at either end.\<close>

definition trimmed :: "string \<Rightarrow> bool" where
  "trimmed u = (u = [] \<or> (\<not> isspace (hd u) \<and> \<not> isspace (last u)))"

text \<open>A row of a table: the cells of all columns at one position.\<close>

definition row_at :: "dataframe \<Rightarrow> nat \<Rightarrow> pyval list" where
  "row_at df i = map (\<lambda>(label, cells). cells ! i) df"

text \<open>The number of lookups in flight in a state.\<close>

definition in_flight :: "batch_state \<Rightarrow> nat" where
  "in_flight s = length (filter (\<lambda>t. t = InFlight) (tasks s))"

text \<open>The results of the coroutines that have finished, in the order of \<^verbatim>\<open>uens\<close>.\<close>

fun finished_results :: "string list \<Rightarrow> task list \<Rightarrow> lookup_result list" where
  "finished_results (uen # uens) (t # ts) =
     (case t of Finished (status, body) \<Rightarrow> [(uen, status, body)] | _ \<Rightarrow> [])
     @ finished_results uens ts"
| "finished_results _ _ = []"

text \<open>The number of coroutines that have finished.\<close>

definition finished_count :: "batch_state \<Rightarrow> nat" where
  "finished_count s = length (filter (\<lambda>t. t \<noteq> Pending \<and> t \<noteq> InFlight) (tasks s))"

text \<open>
  What holds of every state of a run with \<open>C\<close> permits: one coroutine per
  identifier; every permit is either free or held by a lookup in flight; the client
  has been called once for each lookup in flight or finished; \<^verbatim>\<open>processed\<close> counts
  the finished ones; a finished coroutine holds what the client returned for its own
  identifier and exchange; and the results appended so far are those of the
  finished coroutines.
\<close>

definition consistent ::
  "environment \<Rightarrow> iras_client \<Rightarrow> string list \<Rightarrow> nat \<Rightarrow> batch_state \<Rightarrow> bool" where
  "consistent E client uens C s =
     (length (tasks s) = length uens
      \<and> sem_value s + in_flight s = C
      \<and> length (requested s) = in_flight s + finished_count s
      \<and> processed s = finished_count s
      \<and> (\<forall>i<length uens. \<forall>r. tasks s ! i = Finished r \<longrightarrow>
            r = search_gst_registered client (session_post E i) (uens ! i))
      \<and> mset (completed s) = mset (finished_results uens (tasks s)))"

section \<open>Inputs for the concrete evaluations\<close>

text \<open>A serializer and a \<^verbatim>\<open>str\<close> for the concrete evaluations: scalars only, every
  container written as \<^verbatim>\<open>{}\<close>, and no text for a float.\<close>

definition sample_lib :: pylib where
  "sample_lib =
     \<lparr> json_dumps = (\<lambda>v. case v of PFloat _ \<Rightarrow> None | PStr s \<Rightarrow> Some s | _ \<Rightarrow> Some ''{}''),
       py_str = (\<lambda>v. case v of PStr s \<Rightarrow> s | PNone \<Rightarrow> ''None'' | _ \<Rightarrow> ''?'') \<rparr>"




text \<open>A client and an environment for the concrete evaluations: the exchange of the
  second coroutine is refused, every other one is answered with a registration; the
  clock advances by one second per step.\<close>

definition sample_client :: iras_client where
  "sample_client =
     \<lparr> base_url = ''https://apiservices.iras.gov.sg/iras/prod/GSTListing/SearchGSTRegistered'',
       client_id = ''id'', client_secret = ''secret'' \<rparr>"

definition sample_response :: response where
  "sample_response =
     \<lparr> resp_status = 200,
       resp_content_type = Some ''application/json; charset=utf-8'',
       resp_json = Ok (PDict [(''returnCode'', PInt 10),
                              (''data'', PDict [(''registrationId'', PStr ''X1'')])]),
       resp_text = Ok '''' \<rparr>"

definition sample_failure :: py_exception where
  "sample_failure = \<lparr> class_name = ''ClientConnectorError'', message = ''refused'' \<rparr>"

definition sample_env :: environment where
  "sample_env =
     \<lparr> choice = (\<lambda>n. if n = 2 then 1 else 0),
       time_time = (\<lambda>n. 1700000000 + real n),
       session_post = (\<lambda>i req. if i = 1 then Raised sample_failure else Ok sample_response) \<rparr>"

section \<open>Properties of the rate limiter\<close>













text \<open>
  Claim C2 at the timestamp 0: \<open>record(0)\<close> on the empty window, with the clock at
  1700000000, stores the clock reading and not 0.
\<close>

theorem record_call_zero_uses_clock:
  "record_call (Some 0) 1700000000 [] = [1700000000]
   \<and> record_call (Some 0) 1700000000 [] \<noteq> [0]"
  by (simp add: record_call_def now_or_time_def deque_append_def RATE_LIMIT_MAX_def)

text \<open>For any other timestamp the call stores the timestamp itself, dropping the
  oldest entry of a full window and keeping duplicates.\<close>

lemma record_call_nonzero:
  "now \<noteq> 0 \<Longrightarrow>
     record_call (Some now) clock w =
       (if length w < RATE_LIMIT_MAX then w @ [now] else tl (w @ [now]))"
  by (auto simp: record_call_def now_or_time_def deque_append_def Let_def)

section \<open>Properties of the projection\<close>










lemma setitem_new: "c \<notin> set (map fst df) \<Longrightarrow> setitem df c v = df @ [(c, v)]"
  by (simp add: setitem_def)







lemma reg_id_of_cases:
  "reg_id_of body = (if well_shaped body
     then Inr (case body of
                 PDict kvs \<Rightarrow>
                   (case map_of kvs ''data'' of
                      None \<Rightarrow> PStr ''''
                    | Some (PDict d) \<Rightarrow> (case map_of d ''registrationId'' of None \<Rightarrow> PStr '''' | Some v \<Rightarrow> v)
                    | Some _ \<Rightarrow> PStr '''')
               | _ \<Rightarrow> PStr '''')
     else Inl AttributeError)"
  by (auto simp: reg_id_of_def well_shaped_def isinstance_dict_def py_get_def
      split: pyval.splits option.splits)

lemma return_code_of_Inr: "\<exists>v. return_code_of body = Inr v"
  by (auto simp: return_code_of_def isinstance_dict_def py_get_def split: pyval.splits)

lemma derive_well_shaped: "well_shaped body \<Longrightarrow> \<exists>d. derive L body = Inr d"
  using return_code_of_Inr [of body] by (auto simp: derive_def reg_id_of_cases)

lemma derive_ill_shaped: "\<not> well_shaped body \<Longrightarrow> derive L body = Inl AttributeError"
  using return_code_of_Inr [of body] by (auto simp: derive_def reg_id_of_cases)









lemma trimmed_dropWhile_rev:
  "trimmed (rev (dropWhile isspace (rev (dropWhile isspace s))))"
proof -
  let ?t = "dropWhile isspace s"
  let ?r = "dropWhile isspace (rev ?t)"
  show ?thesis
  proof (cases "?r = []")
    case True
    then show ?thesis by (simp add: trimmed_def)
  next
    case False
    then have hr: "\<not> isspace (hd ?r)" by (rule hd_dropWhile)
    have tne: "?t \<noteq> []"
    proof
      assume "?t = []"
      then have "?r = []" by (metis dropWhile.simps(1) rev.simps(1))
      with False show False by blast
    qed
    then have ht: "\<not> isspace (hd ?t)" by (rule hd_dropWhile)
    have "rev ?t = takeWhile isspace (rev ?t) @ ?r" by simp
    then have "last (rev ?t) = last ?r" using False by (metis last_appendR)
    then have "last ?r = hd ?t" using tne by (simp add: last_rev)
    with ht hr False show ?thesis
      by (simp add: trimmed_def hd_rev last_rev)
  qed
qed

lemma trimmed_strip: "trimmed (strip s)"
  unfolding strip_def by (rule trimmed_dropWhile_rev)

lemma dropWhile_all: "\<forall>x\<in>set xs. P x \<Longrightarrow> dropWhile P (xs @ ys) = dropWhile P ys"
  by (induction xs) auto

lemma strip_padded:
  assumes "trimmed u" and "\<forall>c\<in>set pre. isspace c" and "\<forall>c\<in>set post. isspace c"
  shows "strip (pre @ u @ post) = u"
proof (cases "u = []")
  case True
  from assms(2,3) have "\<forall>c\<in>set (pre @ post). isspace c" by auto
  then have d: "dropWhile isspace (pre @ post) = []" by (simp only: dropWhile_eq_Nil_conv)
  have "strip (pre @ u @ post) = rev (dropWhile isspace (rev (dropWhile isspace (pre @ post))))"
    using True by (simp only: strip_def append_Nil)
  also have "\<dots> = []" by (simp only: d rev.simps dropWhile.simps)
  finally show ?thesis using True by simp
next
  case False
  with assms(1) have h: "\<not> isspace (hd u)" and l: "\<not> isspace (last u)"
    by (auto simp: trimmed_def)
  have 1: "dropWhile isspace (pre @ u @ post) = u @ post"
    using assms(2) False h by (cases u) (simp_all add: dropWhile_all)
  have "rev (u @ post) = rev post @ rev u" by simp
  moreover have "\<forall>c\<in>set (rev post). isspace c" using assms(3) by simp
  ultimately have "dropWhile isspace (rev (u @ post)) = dropWhile isspace (rev u)"
    by (simp add: dropWhile_all)
  also have "\<dots> = rev u" using False l by (cases "rev u") (auto simp: last_rev [symmetric] hd_rev)
  finally show ?thesis by (simp add: strip_def 1)
qed

lemma strip_trimmed: "trimmed u \<Longrightarrow> strip u = u"
  using strip_padded [of u "[]" "[]"] by simp

lemma strip_idem: "strip (strip s) = strip s"
  by (rule strip_trimmed) (rule trimmed_strip)


lemma row_at_append: "row_at (df @ df') i = row_at df i @ row_at df' i"
  by (simp add: row_at_def)















text \<open>The serialized body is the serializer's text, and \<^verbatim>\<open>str(body)\<close> exactly when
  the serializer raises.\<close>

lemma json_str_of_fallback:
  "json_str_of L body = (case json_dumps L body of Some s \<Rightarrow> s | None \<Rightarrow> py_str L body)"
  by (simp add: json_str_of_def)

text \<open>On a well-shaped body the derivation raises nothing; on any other body it
  raises \<^verbatim>\<open>AttributeError\<close>.\<close>

lemma derive_total_iff_well_shaped:
  "(\<exists>d. derive L body = Inr d) \<longleftrightarrow> well_shaped body"
  by (metis derive_well_shaped derive_ill_shaped sum.distinct(1))

text \<open>
  Claim C5 at the body \<^verbatim>\<open>{"returnCode": 30, "data": null}\<close>: \<^verbatim>\<open>body.get("data", {})\<close> is
  \<^verbatim>\<open>None\<close>, the second \<^verbatim>\<open>.get\<close> raises \<^verbatim>\<open>AttributeError\<close>, and with it the whole
  projection.
\<close>

theorem extract_row_raises_on_null_data:
  "extract_row sample_lib
     (fill_out_map [(''A'', 200, PDict [(''returnCode'', PInt 30), (''data'', PNone)])] Map.empty)
     ''A'' = Inl AttributeError
   \<and> process_batch_results sample_lib [(''UEN'', [PStr ''A''])] ''UEN''
       [(''A'', 200, PDict [(''returnCode'', PInt 30), (''data'', PNone)])] = Inl AttributeError"
  by (simp add: process_batch_results_def getitem_def extract_row_def derive_def
     return_code_of_def reg_id_of_def isinstance_dict_def py_get_def json_str_of_def sample_lib_def
     row_key_def strip_def astype_str_def isspace_def setitem3_def setitem_def response_columns_def)

section \<open>Properties of the client and the dispatcher\<close>

text \<open>The equation of \<open>run\<close> is unfolded by hand.\<close>

declare run.simps [simp del]

lemma run_nonempty: "run E client uens cb n s \<noteq> []"
  by (subst run.simps) simp

text \<open>A property that holds of the first state and is kept by every step that can
  happen holds of every state of the run.\<close>

lemma run_invariant_aux:
  "(\<forall>s n ev. I s \<longrightarrow> ev \<in> set (enabled s) \<longrightarrow> I (fire E client uens cb n s ev)) \<Longrightarrow>
     I s \<Longrightarrow> \<forall>s'\<in>set (run E client uens cb n s). I s'"
proof (induction E client uens cb n s rule: run.induct)
  case (1 E client uens cb n s)
  note step = "1.prems"(1) and s = "1.prems"(2)
  show ?case
  proof (cases "enabled s = []")
    case True
    with s show ?thesis by (subst run.simps) simp
  next
    case False
    let ?ev = "enabled s ! (choice E n mod length (enabled s))"
    from False have "?ev \<in> set (enabled s)" by simp
    with s step have "I (fire E client uens cb n s ?ev)" by blast
    with False step
    have "\<forall>s'\<in>set (run E client uens cb (Suc n) (fire E client uens cb n s ?ev)). I s'"
      by (intro "1.IH")
    with False s show ?thesis by (subst run.simps) simp
  qed
qed

lemma run_invariant:
  assumes "I s"
    and "\<And>s n ev. I s \<Longrightarrow> ev \<in> set (enabled s) \<Longrightarrow> I (fire E client uens cb n s ev)"
  shows "\<forall>s'\<in>set (run E client uens cb n s). I s'"
  using assms by (intro run_invariant_aux) blast+

lemma run_last_stuck: "enabled (last (run E client uens cb n s)) = []"
proof (induction E client uens cb n s rule: run.induct)
  case (1 E client uens cb n s)
  show ?case
  proof (cases "enabled s = []")
    case True
    then show ?thesis by (subst run.simps) simp
  next
    case False
    with "1.IH" show ?thesis
      by (subst run.simps) (simp add: run_nonempty)
  qed
qed

lemma run_hd: "hd (run E client uens cb n s) = s"
  by (subst run.simps) simp

lemma length_filter_update:
  "i < length xs \<Longrightarrow>
     length (filter P (xs[i := v])) + (if P (xs ! i) then 1 else 0)
       = length (filter P xs) + (if P v then 1 else 0)"
proof (induction xs arbitrary: i)
  case Nil
  then show ?case by simp
next
  case (Cons x xs)
  then show ?case by (cases i) auto
qed

lemma finished_results_update_unfinished:
  "\<lbrakk>i < length ts; \<forall>r. ts ! i \<noteq> Finished r; \<forall>r. v \<noteq> Finished r\<rbrakk> \<Longrightarrow>
     finished_results us (ts[i := v]) = finished_results us ts"
proof (induction us ts arbitrary: i rule: finished_results.induct)
  case (1 uen uens t ts)
  then show ?case by (cases i) (auto split: task.splits)
qed simp_all

lemma finished_results_update_finished:
  "\<lbrakk>i < length ts; i < length us; \<forall>r. ts ! i \<noteq> Finished r\<rbrakk> \<Longrightarrow>
     mset (finished_results us (ts[i := Finished (status, body)]))
       = add_mset (us ! i, status, body) (mset (finished_results us ts))"
proof (induction us ts arbitrary: i rule: finished_results.induct)
  case (1 uen uens t ts)
  then show ?case by (cases i) (auto split: task.splits)
qed simp_all

lemma gather_map_Finished:
  "length us = length rs \<Longrightarrow> gather us (map Finished rs) = Some (zip us rs)"
proof (induction us rs rule: list_induct2)
  case Nil
  then show ?case by simp
next
  case (Cons u us r rs)
  then show ?case by (cases r) simp
qed

lemma finished_results_map_Finished:
  "length us = length rs \<Longrightarrow> finished_results us (map Finished rs) = zip us rs"
proof (induction us rs rule: list_induct2)
  case Nil
  then show ?case by simp
next
  case (Cons u us r rs)
  then show ?case by (cases r) simp
qed

lemma enabled_cases:
  assumes "ev \<in> set (enabled s)"
  obtains (acquire) i where "ev = Acquire i" "i < length (tasks s)" "tasks s ! i = Pending"
      "0 < sem_value s"
    | (complete) i where "ev = Complete i" "i < length (tasks s)" "tasks s ! i = InFlight"
  using assms by (auto simp: enabled_def)

lemma consistent_initial:
  "consistent E client uens C (initial_state uens C w)"
proof -
  have "finished_results uens (map (\<lambda>uen. Pending) uens) = []"
    by (induction uens) simp_all
  then show ?thesis
    by (simp add: consistent_def initial_state_def in_flight_def finished_count_def)
qed

lemma consistent_Finished:
  "consistent E client uens C s \<Longrightarrow> j < length uens \<Longrightarrow> tasks s ! j = Finished r \<Longrightarrow>
     r = search_gst_registered client (session_post E j) (uens ! j)"
  unfolding consistent_def by blast

text \<open>Both kinds of step keep a state consistent.\<close>

lemma consistent_fire:
  assumes c: "consistent E client uens C s" and ev: "ev \<in> set (enabled s)"
  shows "consistent E client uens C (fire E client uens cb n s ev)"
  using ev
proof (cases rule: enabled_cases)
  case (acquire i)
  let ?s' = "fire E client uens cb n s ev"
  have t: "tasks ?s' = (tasks s)[i := InFlight]" and sv: "sem_value ?s' = sem_value s - 1"
    and rq: "requested ?s' = requested s @ [uens ! i]" and pr: "processed ?s' = processed s"
    and cp: "completed ?s' = completed s"
    by (simp_all add: fire_def acquire(1))
  from length_filter_update [OF acquire(2), of "\<lambda>t. t = InFlight" InFlight] acquire(3)
  have inf: "in_flight ?s' = in_flight s + 1" by (simp add: in_flight_def t)
  from length_filter_update [OF acquire(2), of "\<lambda>t. t \<noteq> Pending \<and> t \<noteq> InFlight" InFlight] acquire(3)
  have fin: "finished_count ?s' = finished_count s" by (simp add: finished_count_def t)
  have fr: "finished_results uens (tasks ?s') = finished_results uens (tasks s)"
    unfolding t using acquire(2,3) by (intro finished_results_update_unfinished) simp_all
  have each: "\<forall>j<length uens. \<forall>r. tasks ?s' ! j = Finished r \<longrightarrow>
            r = search_gst_registered client (session_post E j) (uens ! j)"
  proof (intro allI impI)
    fix j r assume j: "j < length uens" and f: "tasks ?s' ! j = Finished r"
    from f acquire(2) have "j \<noteq> i" unfolding t by (cases "j = i") auto
    with f have "tasks s ! j = Finished r" unfolding t by simp
    with c j show "r = search_gst_registered client (session_post E j) (uens ! j)"
      by (rule consistent_Finished)
  qed
  from c acquire(4) each show ?thesis
    unfolding consistent_def inf fin fr sv rq pr cp by (simp add: t)
next
  case (complete i)
  let ?s' = "fire E client uens cb n s ev"
  obtain status body where r: "search_gst_registered client (session_post E i) (uens ! i) = (status, body)"
    by (cases "search_gst_registered client (session_post E i) (uens ! i)") auto
  have t: "tasks ?s' = (tasks s)[i := Finished (status, body)]"
    and sv: "sem_value ?s' = sem_value s + 1"
    and rq: "requested ?s' = requested s" and pr: "processed ?s' = processed s + 1"
    and cp: "completed ?s' = completed s @ [(uens ! i, status, body)]"
    by (simp_all add: fire_def complete(1) r)
  from c have len: "length (tasks s) = length uens" by (simp add: consistent_def)
  from length_filter_update [OF complete(2), of "\<lambda>t. t = InFlight" "Finished (status, body)"] complete(3)
  have inf: "in_flight ?s' + 1 = in_flight s" by (simp add: in_flight_def t)
  from length_filter_update [OF complete(2), of "\<lambda>t. t \<noteq> Pending \<and> t \<noteq> InFlight" "Finished (status, body)"]
    complete(3)
  have fin: "finished_count ?s' = finished_count s + 1" by (simp add: finished_count_def t)
  have fr: "mset (finished_results uens (tasks ?s'))
      = add_mset (uens ! i, status, body) (mset (finished_results uens (tasks s)))"
    unfolding t using complete(2,3) len by (intro finished_results_update_finished) simp_all
  have each: "\<forall>j<length uens. \<forall>r. tasks ?s' ! j = Finished r \<longrightarrow>
            r = search_gst_registered client (session_post E j) (uens ! j)"
  proof (intro allI impI)
    fix j r' assume j: "j < length uens" and f: "tasks ?s' ! j = Finished r'"
    show "r' = search_gst_registered client (session_post E j) (uens ! j)"
    proof (cases "j = i")
      case True
      with f complete(2) r show ?thesis unfolding t by simp
    next
      case False
      with f have "tasks s ! j = Finished r'" unfolding t by simp
      with c j show ?thesis by (rule consistent_Finished)
    qed
  qed
  from c inf each show ?thesis
    unfolding consistent_def fin fr sv rq pr cp by (simp add: t)
qed

lemma consistent_run:
  assumes "consistent E client uens C s"
  shows "\<forall>s'\<in>set (run E client uens cb n s). consistent E client uens C s'"
  using assms by (rule run_invariant) (rule consistent_fire)

lemma stuck_all_finished:
  assumes stuck: "enabled s = []" and sem: "sem_value s + in_flight s = C" and C: "1 \<le> C"
    and i: "i < length (tasks s)"
  shows "\<exists>r. tasks s ! i = Finished r"
proof -
  from stuck have nof: "\<forall>j<length (tasks s). tasks s ! j \<noteq> InFlight"
    and nop: "\<forall>j<length (tasks s). \<not> (tasks s ! j = Pending \<and> 0 < sem_value s)"
    by (auto simp: enabled_def filter_empty_conv)
  from nof have "filter (\<lambda>t. t = InFlight) (tasks s) = []"
    by (auto simp: filter_empty_conv in_set_conv_nth)
  then have "in_flight s = 0" by (simp add: in_flight_def)
  with sem C have "0 < sem_value s" by simp
  with nop i have "tasks s ! i \<noteq> Pending" by blast
  moreover from nof i have "tasks s ! i \<noteq> InFlight" by blast
  ultimately show ?thesis by (cases "tasks s ! i") auto
qed

lemma stuck_none_in_flight:
  assumes "enabled s = []"
  shows "in_flight s = 0"
proof -
  from assms have "\<forall>j<length (tasks s). tasks s ! j \<noteq> InFlight"
    by (auto simp: enabled_def filter_empty_conv)
  then have "filter (\<lambda>t. t = InFlight) (tasks s) = []"
    by (auto simp: filter_empty_conv in_set_conv_nth)
  then show ?thesis by (simp add: in_flight_def)
qed

text \<open>The last state of a run with at least one permit.\<close>

lemma final_tasks:
  assumes C: "1 \<le> C" and c0: "consistent E client uens C s0"
  shows "tasks (last (run E client uens cb n s0))
     = map Finished (map (\<lambda>i. search_gst_registered client (session_post E i) (uens ! i))
                         [0..<length uens])"
proof -
  let ?s = "last (run E client uens cb n s0)"
  have "?s \<in> set (run E client uens cb n s0)" by (simp add: run_nonempty)
  with consistent_run [OF c0] have c: "consistent E client uens C ?s" by blast
  then have len: "length (tasks ?s) = length uens" and sem: "sem_value ?s + in_flight ?s = C"
    by (simp_all add: consistent_def)
  have stuck: "enabled ?s = []" by (rule run_last_stuck)
  show ?thesis
  proof (rule nth_equalityI)
    show "length (tasks ?s) = length (map Finished (map (\<lambda>i. search_gst_registered client (session_post E i) (uens ! i))
                         [0..<length uens]))"
      using len by simp
  next
    fix i assume i: "i < length (tasks ?s)"
    from stuck_all_finished [OF stuck sem C i] obtain r where r: "tasks ?s ! i = Finished r" by blast
    with c i len have "r = search_gst_registered client (session_post E i) (uens ! i)"
      by (intro consistent_Finished [where s = ?s]) simp_all
    with r i len show "tasks ?s ! i = map Finished (map (\<lambda>i. search_gst_registered client (session_post E i) (uens ! i))
                         [0..<length uens]) ! i"
      by simp
  qed
qed

text \<open>With at least one permit the call returns, and what it returns depends neither
  on the number of permits nor on the order of the steps.\<close>

lemma batch_lookup_returns:
  assumes "1 \<le> concurrency"
  shows "batch_lookup E client uens concurrency cb w =
     Returns (zip uens (map (\<lambda>i. search_gst_registered client (session_post E i) (uens ! i))
                            [0..<length uens]))"
proof -
  from assms have C: "1 \<le> nat concurrency" by simp
  have t: "tasks (last (batch_states E client uens concurrency cb w))
     = map Finished (map (\<lambda>i. search_gst_registered client (session_post E i) (uens ! i))
                         [0..<length uens])"
    unfolding batch_states_def using C consistent_initial by (rule final_tasks)
  have "gather uens (tasks (last (batch_states E client uens concurrency cb w)))
     = Some (zip uens (map (\<lambda>i. search_gst_registered client (session_post E i) (uens ! i))
                            [0..<length uens]))"
    unfolding t by (rule gather_map_Finished) simp
  with assms show ?thesis
    by (simp add: batch_lookup_def)
qed

lemma batch_final_consistent:
  "consistent E client uens (nat concurrency) (last (batch_states E client uens concurrency cb w))"
proof -
  have "last (batch_states E client uens concurrency cb w)
      \<in> set (batch_states E client uens concurrency cb w)"
    by (simp add: batch_states_def run_nonempty)
  with consistent_run [OF consistent_initial] show ?thesis
    unfolding batch_states_def by blast
qed

lemma batch_states_empty:
  "batch_states E client [] concurrency cb w = [initial_state [] (nat concurrency) w]"
  unfolding batch_states_def
  by (subst run.simps) (simp add: enabled_def initial_state_def)

text \<open>The sample run: three identifiers, two permits, the second exchange refused.\<close>

lemma sample_batch:
  "batch_lookup sample_env sample_client [''A'', ''B'', ''A''] 2 True [] =
     Returns
       [(''A'', 200, PDict [(''returnCode'', PInt 10),
                            (''data'', PDict [(''registrationId'', PStr ''X1'')])]),
        (''B'', 0, PDict [(''error'', PStr ''ClientConnectorError: refused'')]),
        (''A'', 200, PDict [(''returnCode'', PInt 10),
                            (''data'', PDict [(''registrationId'', PStr ''X1'')])])]"
  by code_simp

lemma sample_in_flight:
  "map in_flight (batch_states sample_env sample_client [''A'', ''B'', ''A''] 2 True [])
     = [0, 1, 2, 1, 2, 1, 0]"
  by code_simp

lemma sample_completed:
  "map fst (completed (last (batch_states sample_env sample_client [''A'', ''B'', ''A''] 2 True [])))
     = [''B'', ''A'', ''A'']"
  by code_simp

lemma sample_post_fails:
  "session_post sample_env 1 (lookup_request sample_client ([''A'', ''B'', ''A''] ! 1))
     = Raised sample_failure"
  by (simp add: sample_env_def)

text \<open>
  Claim C3. For every list of identifiers, every concurrency bound of at least 1,
  and every order of steps, clock and behaviour of the remote service:
  \<^verbatim>\<open>batch_lookup\<close> returns; the list it returns has one entry per identifier, tagged
  with the identifiers in their order (duplicates included), each holding what the
  client returned for its own exchange; the results appended in order of completion
  (main.py) are the same entries up to order; the client is called once per
  identifier. For the empty list the result is empty, the client is never called
  and \<^verbatim>\<open>rate_ts\<close> is left as it was.
\<close>

theorem batch_lookup_one_result_per_identifier:
  assumes "1 \<le> concurrency"
  shows "\<exists>results.
           batch_lookup E client uens concurrency cb w = Returns results
         \<and> length results = length uens
         \<and> map fst results = uens
         \<and> results = zip uens (map (\<lambda>i. search_gst_registered client (session_post E i) (uens ! i))
                                    [0..<length uens])
         \<and> mset (completed (last (batch_states E client uens concurrency cb w))) = mset results
         \<and> length (requested (last (batch_states E client uens concurrency cb w))) = length uens
         \<and> (uens = [] \<longrightarrow>
               results = []
             \<and> requested (last (batch_states E client uens concurrency cb w)) = []
             \<and> rate_ts (last (batch_states E client uens concurrency cb w)) = w)"
proof -
  let ?rs = "zip uens (map (\<lambda>i. search_gst_registered client (session_post E i) (uens ! i))
                            [0..<length uens])"
  let ?s = "last (batch_states E client uens concurrency cb w)"
  from assms have C: "1 \<le> nat concurrency" by simp
  have r: "batch_lookup E client uens concurrency cb w = Returns ?rs"
    using assms by (rule batch_lookup_returns)
  have t: "tasks ?s = map Finished (map (\<lambda>i. search_gst_registered client (session_post E i) (uens ! i))
                         [0..<length uens])"
    unfolding batch_states_def using C consistent_initial by (rule final_tasks)
  have c: "consistent E client uens (nat concurrency) ?s" by (rule batch_final_consistent)
  have "finished_results uens (tasks ?s) = ?rs"
    unfolding t by (rule finished_results_map_Finished) simp
  with c have m: "mset (completed ?s) = mset ?rs" by (simp add: consistent_def)
  have "in_flight ?s = 0"
    by (rule stuck_none_in_flight) (simp add: batch_states_def run_last_stuck)
  moreover have "finished_count ?s = length uens"
    by (simp add: finished_count_def t)
  ultimately have q: "length (requested ?s) = length uens"
    using c by (simp add: consistent_def)
  have e: "uens = [] \<longrightarrow> ?rs = [] \<and> requested ?s = [] \<and> rate_ts ?s = w"
    by (auto simp: batch_states_empty initial_state_def)
  have l: "length ?rs = length uens" "map fst ?rs = uens" by simp_all
  from r l m q e show ?thesis by blast
qed

text \<open>The theorem at the sample run, and at the empty list with \<^verbatim>\<open>rate_ts\<close> holding one
  timestamp.\<close>

theorem batch_lookup_one_result_per_identifier_witness:
  "(1 :: int) \<le> 2
   \<and> batch_lookup sample_env sample_client [''A'', ''B'', ''A''] 2 True [] =
       Returns
         [(''A'', 200, PDict [(''returnCode'', PInt 10),
                              (''data'', PDict [(''registrationId'', PStr ''X1'')])]),
          (''B'', 0, PDict [(''error'', PStr ''ClientConnectorError: refused'')]),
          (''A'', 200, PDict [(''returnCode'', PInt 10),
                              (''data'', PDict [(''registrationId'', PStr ''X1'')])])]
   \<and> map fst (completed (last (batch_states sample_env sample_client [''A'', ''B'', ''A''] 2 True [])))
       = [''B'', ''A'', ''A'']
   \<and> length (requested (last (batch_states sample_env sample_client [''A'', ''B'', ''A''] 2 True []))) = 3
   \<and> batch_lookup sample_env sample_client [] 2 True [5] = Returns []
   \<and> requested (last (batch_states sample_env sample_client [] 2 True [5])) = []
   \<and> rate_ts (last (batch_states sample_env sample_client [] 2 True [5])) = [5]"
proof -
  have c: "(1 :: int) \<le> 2" by simp
  from batch_lookup_one_result_per_identifier
         [OF c, of sample_env sample_client "[''A'', ''B'', ''A'']" True "[]"]
  have 1: "length (requested (last (batch_states sample_env sample_client [''A'', ''B'', ''A''] 2 True []))) = 3"
    by auto
  from batch_lookup_one_result_per_identifier [OF c, of sample_env sample_client "[]" True "[5]"]
  have 2: "batch_lookup sample_env sample_client [] 2 True [5] = Returns []
     \<and> requested (last (batch_states sample_env sample_client [] 2 True [5])) = []
     \<and> rate_ts (last (batch_states sample_env sample_client [] 2 True [5])) = [5]"
    by auto
  from c sample_batch sample_completed 1 2 show ?thesis by simp
qed

text \<open>
  Claim C9. In every state of every run with a concurrency bound \<open>C\<close>, the number
  of lookups in flight is at most \<open>C\<close>: the free permits and the lookups in flight
  add up to \<open>C\<close>, and the client has been called only for lookups that hold a
  permit or have finished and given it back.
\<close>

theorem in_flight_never_exceeds_concurrency:
  assumes "0 \<le> concurrency"
  shows "\<forall>s\<in>set (batch_states E client uens concurrency cb w).
           int (in_flight s) \<le> concurrency
         \<and> int (sem_value s) + int (in_flight s) = concurrency
         \<and> length (requested s) = in_flight s + finished_count s"
proof
  fix s assume "s \<in> set (batch_states E client uens concurrency cb w)"
  with consistent_run [OF consistent_initial]
  have "consistent E client uens (nat concurrency) s"
    unfolding batch_states_def by blast
  with assms show "int (in_flight s) \<le> concurrency
         \<and> int (sem_value s) + int (in_flight s) = concurrency
         \<and> length (requested s) = in_flight s + finished_count s"
    by (auto simp: consistent_def)
qed

text \<open>The theorem at the sample run: the third coroutine starts only after a permit
  has come back.\<close>

theorem in_flight_never_exceeds_concurrency_witness:
  "(0 :: int) \<le> 2
   \<and> map in_flight (batch_states sample_env sample_client [''A'', ''B'', ''A''] 2 True [])
       = [0, 1, 2, 1, 2, 1, 0]
   \<and> int (in_flight (last (batch_states sample_env sample_client [''A'', ''B'', ''A''] 2 True []))) \<le> 2
   \<and> int (sem_value (last (batch_states sample_env sample_client [''A'', ''B'', ''A''] 2 True [])))
       + int (in_flight (last (batch_states sample_env sample_client [''A'', ''B'', ''A''] 2 True []))) = 2"
proof -
  have c: "(0 :: int) \<le> 2" by simp
  have "last (batch_states sample_env sample_client [''A'', ''B'', ''A''] 2 True [])
      \<in> set (batch_states sample_env sample_client [''A'', ''B'', ''A''] 2 True [])"
    by (simp add: batch_states_def run_nonempty)
  with in_flight_never_exceeds_concurrency
         [OF c, of sample_env sample_client "[''A'', ''B'', ''A'']" True "[]"]
  have "int (in_flight (last (batch_states sample_env sample_client [''A'', ''B'', ''A''] 2 True []))) \<le> 2
   \<and> int (sem_value (last (batch_states sample_env sample_client [''A'', ''B'', ''A''] 2 True [])))
       + int (in_flight (last (batch_states sample_env sample_client [''A'', ''B'', ''A''] 2 True []))) = 2"
    by blast
  with c sample_in_flight show ?thesis by simp
qed

lemma error_body_nonempty: "class_name e @ '': '' @ message e \<noteq> ''''"
  by simp

text \<open>
  Claim C4. When the exchange raises, or reading the body of the response raises,
  \<^verbatim>\<open>search_gst_registered\<close> returns status 0 and a dictionary whose only entry
  \<^verbatim>\<open>error\<close> is the exception's class name, a colon and its message, which is never the
  empty string. In a batch such a failure is the result of its own identifier; the
  call still returns one result per identifier, and every other result is what the
  client returned for that identifier's own exchange.
\<close>

theorem transport_failure_becomes_result:
  "(post (lookup_request client reg_id) = Raised e \<longrightarrow>
      search_gst_registered client post reg_id
        = (0, PDict [(''error'', PStr (class_name e @ '': '' @ message e))])
    \<and> class_name e @ '': '' @ message e \<noteq> '''')
   \<and> (\<forall>resp. post (lookup_request client reg_id) = Ok resp
         \<and> (if prefix ''application/json''
                  (case resp_content_type resp of None \<Rightarrow> '''' | Some ct \<Rightarrow> ct)
             then resp_json resp = Raised e else resp_text resp = Raised e) \<longrightarrow>
      search_gst_registered client post reg_id
        = (0, PDict [(''error'', PStr (class_name e @ '': '' @ message e))]))
   \<and> (1 \<le> concurrency \<and> i < length uens
        \<and> session_post E i (lookup_request client (uens ! i)) = Raised e \<longrightarrow>
      (\<exists>results.
          batch_lookup E client uens concurrency cb w = Returns results
        \<and> length results = length uens
        \<and> results ! i = (uens ! i, 0, PDict [(''error'', PStr (class_name e @ '': '' @ message e))])
        \<and> (\<forall>j<length uens. j \<noteq> i \<longrightarrow>
              results ! j
                = (uens ! j, search_gst_registered client (session_post E j) (uens ! j)))))"
proof (intro conjI impI allI)
  assume "post (lookup_request client reg_id) = Raised e"
  then show "search_gst_registered client post reg_id
        = (0, PDict [(''error'', PStr (class_name e @ '': '' @ message e))])"
    by (simp add: search_gst_registered_def error_body_def)
next
  show "class_name e @ '': '' @ message e \<noteq> ''''" by simp
next
  fix resp
  assume "post (lookup_request client reg_id) = Ok resp
         \<and> (if prefix ''application/json''
                  (case resp_content_type resp of None \<Rightarrow> '''' | Some ct \<Rightarrow> ct)
             then resp_json resp = Raised e else resp_text resp = Raised e)"
  then show "search_gst_registered client post reg_id
        = (0, PDict [(''error'', PStr (class_name e @ '': '' @ message e))])"
    by (auto simp: search_gst_registered_def error_body_def split: if_splits)
next
  assume h: "1 \<le> concurrency \<and> i < length uens
        \<and> session_post E i (lookup_request client (uens ! i)) = Raised e"
  let ?rs = "zip uens (map (\<lambda>i. search_gst_registered client (session_post E i) (uens ! i))
                            [0..<length uens])"
  from h have r: "batch_lookup E client uens concurrency cb w = Returns ?rs"
    by (intro batch_lookup_returns) simp
  from h have "search_gst_registered client (session_post E i) (uens ! i)
      = (0, PDict [(''error'', PStr (class_name e @ '': '' @ message e))])"
    by (simp add: search_gst_registered_def error_body_def)
  with h have i: "?rs ! i = (uens ! i, 0, PDict [(''error'', PStr (class_name e @ '': '' @ message e))])"
    by simp
  have "\<forall>j<length uens. j \<noteq> i \<longrightarrow>
              ?rs ! j = (uens ! j, search_gst_registered client (session_post E j) (uens ! j))"
    by simp
  with r i show "\<exists>results.
          batch_lookup E client uens concurrency cb w = Returns results
        \<and> length results = length uens
        \<and> results ! i = (uens ! i, 0, PDict [(''error'', PStr (class_name e @ '': '' @ message e))])
        \<and> (\<forall>j<length uens. j \<noteq> i \<longrightarrow>
              results ! j
                = (uens ! j, search_gst_registered client (session_post E j) (uens ! j)))"
    by (intro exI [of _ ?rs]) simp
qed

text \<open>The theorem at the sample run, whose second exchange is refused.\<close>

theorem transport_failure_becomes_result_witness:
  "session_post sample_env 1 (lookup_request sample_client ([''A'', ''B'', ''A''] ! 1))
     = Raised sample_failure
   \<and> search_gst_registered sample_client (session_post sample_env 1) ''B''
       = (0, PDict [(''error'', PStr ''ClientConnectorError: refused'')])
   \<and> (1 :: int) \<le> 2 \<and> (1 :: nat) < length [''A'', ''B'', ''A'']
   \<and> batch_lookup sample_env sample_client [''A'', ''B'', ''A''] 2 True [] =
       Returns
         [(''A'', 200, PDict [(''returnCode'', PInt 10),
                              (''data'', PDict [(''registrationId'', PStr ''X1'')])]),
          (''B'', 0, PDict [(''error'', PStr ''ClientConnectorError: refused'')]),
          (''A'', 200, PDict [(''returnCode'', PInt 10),
                              (''data'', PDict [(''registrationId'', PStr ''X1'')])])]"
proof -
  have f: "session_post sample_env 1 (lookup_request sample_client ''B'') = Raised sample_failure"
    using sample_post_fails by simp
  from transport_failure_becomes_result
    [where post = "session_post sample_env 1" and client = sample_client and reg_id = "''B''"
       and e = sample_failure and concurrency = 2 and i = 1 and uens = "[''A'', ''B'', ''A'']"
       and E = sample_env and cb = True and w = "[]"] f
  have "search_gst_registered sample_client (session_post sample_env 1) ''B''
       = (0, PDict [(''error'', PStr ''ClientConnectorError: refused'')])"
    by (simp add: sample_failure_def)
  with sample_post_fails sample_batch show ?thesis by simp
qed

end
